theory Spec2Isabelle
  imports Main
begin

section \<open>Disk scheduling (component DiskScheduling)\<close>

text \<open>
  The component keeps its state in React state cells. One call of an event handler reads
  the cells of the current render and queues updates; the model passes the state
  explicitly and returns the state of the next render. Positions are integers.
\<close>

record Request =
  position :: int
  isServed :: bool

datatype disk_algorithm = FCFS | SSTF | SCAN

datatype direction = Up | Down

record disk_state =
  requests :: "Request list"
  headPosition :: int
  algorithmD :: disk_algorithm
  isPlayingD :: bool
  direction :: direction
  totalSeekTime :: int

text \<open>
  The handler compares requests by object identity (\<open>r === nextRequest\<close>). Every
  element of the array is an object of its own, so the identity of a request is its slot
  in the array: a selected request is a pair of its slot and its contents.
\<close>

type_synonym request_ref = "nat \<times> Request"

definition unserved :: "Request list \<Rightarrow> request_ref list" where
  "unserved rs = filter (\<lambda>(i, r). \<not> isServed r) (enumerate 0 rs)"

text \<open>The callback of \<open>reduce\<close> in the SSTF case; \<open>None\<close> is \<open>null\<close>.\<close>

definition closer :: "int \<Rightarrow> request_ref option \<Rightarrow> request_ref \<Rightarrow> request_ref option" where
  "closer h closest current =
     (case closest of
        None \<Rightarrow> Some current
      | Some c \<Rightarrow>
          if \<bar>position (snd current) - h\<bar> < \<bar>position (snd c) - h\<bar>
          then Some current else Some c)"

text \<open>\<open>xs[0]\<close>: \<open>undefined\<close> (here \<open>None\<close>) on the empty array.\<close>

definition first_elem :: "'a list \<Rightarrow> 'a option" where
  "first_elem xs = (case xs of [] \<Rightarrow> None | x # _ \<Rightarrow> Some x)"

text \<open>
  \<open>sort((a, b) => a.position - b.position)\<close> is a stable ascending sort by position and
  \<open>sort((a, b) => b.position - a.position)\<close> a stable descending one; \<open>sort_key\<close> is
  stable.
\<close>

definition sort_asc :: "request_ref list \<Rightarrow> request_ref list" where
  "sort_asc xs = sort_key (\<lambda>(i, r). position r) xs"

definition sort_desc :: "request_ref list \<Rightarrow> request_ref list" where
  "sort_desc xs = sort_key (\<lambda>(i, r). - position r) xs"

text \<open>
  \<open>getNextRequest\<close> returns the selected request, if any, together with the value of
  \<open>direction\<close> after the call: the SCAN case calls \<open>setDirection\<close> before its second
  search.
\<close>

definition getNextRequest :: "disk_state \<Rightarrow> request_ref option \<times> direction" where
  "getNextRequest s =
     (case algorithmD s of
        FCFS \<Rightarrow> (find (\<lambda>(i, r). \<not> isServed r) (enumerate 0 (requests s)), direction s)
      | SSTF \<Rightarrow> (foldl (closer (headPosition s)) None (unserved (requests s)), direction s)
      | SCAN \<Rightarrow>
          (let unservedRequests = unserved (requests s) in
           if direction s = Up then
             (case first_elem (sort_asc
                     (filter (\<lambda>(i, r). position r \<ge> headPosition s) unservedRequests)) of
                Some nextUp \<Rightarrow> (Some nextUp, direction s)
              | None \<Rightarrow>
                  (first_elem (sort_desc
                     (filter (\<lambda>(i, r). position r < headPosition s) unservedRequests)),
                   Down))
           else
             (case first_elem (sort_desc
                     (filter (\<lambda>(i, r). position r \<le> headPosition s) unservedRequests)) of
                Some nextDown \<Rightarrow> (Some nextDown, direction s)
              | None \<Rightarrow>
                  (first_elem (sort_asc
                     (filter (\<lambda>(i, r). position r > headPosition s) unservedRequests)),
                   Up))))"

definition mark_served :: "nat \<Rightarrow> Request list \<Rightarrow> Request list" where
  "mark_served i rs =
     map (\<lambda>(j, r). if j = i then r\<lparr>isServed := True\<rparr> else r) (enumerate 0 rs)"

definition moveHead :: "disk_state \<Rightarrow> disk_state" where
  "moveHead s =
     (case getNextRequest s of
        (Some (i, nextRequest), d) \<Rightarrow>
          s\<lparr>totalSeekTime := totalSeekTime s + \<bar>position nextRequest - headPosition s\<bar>,
            headPosition := position nextRequest,
            requests := mark_served i (requests s),
            direction := d\<rparr>
      | (None, d) \<Rightarrow> s\<lparr>isPlayingD := False, direction := d\<rparr>)"

definition resetD :: "disk_state \<Rightarrow> disk_state" where
  "resetD s =
     s\<lparr>requests := map (\<lambda>r. r\<lparr>isServed := False\<rparr>) (requests s),
       headPosition := 50,
       totalSeekTime := 0,
       isPlayingD := False,
       direction := Up\<rparr>"

definition new_request :: "int \<Rightarrow> Request" where
  "new_request p = \<lparr>position = p, isServed = False\<rparr>"

text \<open>The state of the first render, for a request list and a selected algorithm.\<close>

definition disk_init :: "int list \<Rightarrow> disk_algorithm \<Rightarrow> disk_state" where
  "disk_init ps alg =
     \<lparr>requests = map new_request ps,
      headPosition = 50,
      algorithmD = alg,
      isPlayingD = False,
      direction = Up,
      totalSeekTime = 0\<rparr>"

definition default_positions :: "int list" where
  "default_positions = [98, 183, 37, 122, 14, 124, 65, 67]"

text \<open>The head positions seen along \<open>n\<close> calls of \<open>moveHead\<close>, the first one included.\<close>

fun head_trace :: "nat \<Rightarrow> disk_state \<Rightarrow> int list" where
  "head_trace 0 s = [headPosition s]"
| "head_trace (Suc n) s = headPosition s # head_trace n (moveHead s)"

fun seek_sum :: "int list \<Rightarrow> int" where
  "seek_sum (a # b # hs) = \<bar>b - a\<bar> + seek_sum (b # hs)"
| "seek_sum _ = 0"

text \<open>The distance the head would travel to a request.\<close>

definition seek_distance :: "int \<Rightarrow> request_ref \<Rightarrow> int" where
  "seek_distance h x = \<bar>position (snd x) - h\<bar>"

text \<open>The other sweep direction.\<close>

definition opposite :: "direction \<Rightarrow> direction" where
  "opposite d = (case d of Up \<Rightarrow> Down | Down \<Rightarrow> Up)"

text \<open>No request is left: every element of \<open>requests\<close> has been served.\<close>

definition all_served :: "disk_state \<Rightarrow> bool" where
  "all_served s = list_all isServed (requests s)"

section \<open>Page replacement (component PageReplacement)\<close>

text \<open>
  A page in memory. The optional fields drive the animation; \<open>None\<close> is an absent
  field. \<open>timestamp\<close> holds the value \<open>Date.now()\<close> returned when the page was
  loaded or, under LRU, last referenced.
\<close>

record Page =
  page_id :: int
  timestamp :: int
  isEntering :: "bool option"
  isLeaving :: "bool option"
  prevValue :: "int option"

datatype page_algorithm = FIFO | LRU

text \<open>
  The narration is a text built from the algorithm and the referenced page; the model
  keeps which text it is and the values inserted into it.
\<close>

datatype narration_text =
    NarrationEmpty
  | NarrationWelcome page_algorithm int
  | NarrationFaultFIFO int
  | NarrationFaultLRU int
  | NarrationHitLRU int
  | NarrationHitFIFO int
  | NarrationDone
  | NarrationReset

record page_state =
  pages :: "Page list"
  sequence :: "int list"
  currentStep :: nat
  isPlayingP :: bool
  algorithmP :: page_algorithm
  pageFaults :: nat
  narration :: narration_text
  isNarrating :: bool

definition frameSize :: nat where
  "frameSize = 3"

definition getNarration :: "page_algorithm \<Rightarrow> nat \<Rightarrow> int \<Rightarrow> bool \<Rightarrow> narration_text" where
  "getNarration alg step newPage isPageFault =
     (if step = 0 then NarrationWelcome alg newPage
      else if isPageFault then
        (if alg = FIFO then NarrationFaultFIFO newPage else NarrationFaultLRU newPage)
      else if alg = LRU then NarrationHitLRU newPage
      else NarrationHitFIFO newPage)"

text \<open>The object literal of a page that enters memory at clock reading \<open>now\<close>.\<close>

definition entering_page :: "int \<Rightarrow> int \<Rightarrow> int option \<Rightarrow> Page" where
  "entering_page newPage now prev =
     \<lparr>page_id = newPage, timestamp = now, isEntering = Some True, isLeaving = None,
      prevValue = prev\<rparr>"

text \<open>\<open>prev.map((p, i) => (i === k ? { ...p, isLeaving: true } : p))\<close>\<close>

definition mark_leaving :: "nat \<Rightarrow> Page list \<Rightarrow> Page list" where
  "mark_leaving k ps =
     map (\<lambda>(i, p). if i = k then p\<lparr>isLeaving := Some True\<rparr> else p) (enumerate 0 ps)"

text \<open>
  \<open>pages.reduce((min, p, i, arr) => (p.timestamp < arr[min].timestamp ? i : min), 0)\<close>:
  a left-to-right scan over the slots that starts from slot 0.
\<close>

definition leastRecentIndex :: "Page list \<Rightarrow> nat" where
  "leastRecentIndex ps =
     foldl (\<lambda>min i. if timestamp (ps ! i) < timestamp (ps ! min) then i else min)
       0 [0..<length ps]"

text \<open>
  On a fault with the memory full, \<open>handleNext\<close> marks the victim as leaving and hands
  the replacement itself to \<open>setTimeout\<close>, to run 500 ms later. The pending callback is
  a value: the FIFO one carries the new page and the victim's id, the LRU one also the
  victim's slot.
\<close>

datatype replacement = ReplaceFIFO int int | ReplaceLRU nat int int

text \<open>
  \<open>handleNext now s\<close> is one call of the handler on the state \<open>s\<close>, with \<open>now\<close> the
  value of \<open>Date.now()\<close> during the call. It returns the state after the updates queued
  by the call and the replacement left pending, if any. In the eviction branches the
  memory holds at least \<open>frameSize\<close> pages, so \<open>pages[0]\<close> and
  \<open>pages[leastRecentIndex]\<close> exist.
\<close>

definition handleNext :: "int \<Rightarrow> page_state \<Rightarrow> page_state \<times> replacement option" where
  "handleNext now s =
     (if currentStep s < length (sequence s) then
        (let newPage = sequence s ! currentStep s;
             isPageFault = \<not> list_ex (\<lambda>p. page_id p = newPage) (pages s);
             s1 = s\<lparr>narration := getNarration (algorithmP s) (currentStep s) newPage isPageFault,
                    isNarrating := True\<rparr>
         in
           if isPageFault then
             (let s2 = s1\<lparr>pageFaults := pageFaults s1 + 1\<rparr> in
              if length (pages s) < frameSize then
                (s2\<lparr>pages := pages s2 @ [entering_page newPage now None],
                    currentStep := currentStep s2 + 1\<rparr>, None)
              else
                (case algorithmP s of
                   FIFO \<Rightarrow>
                     (s2\<lparr>pages := mark_leaving 0 (pages s2),
                         currentStep := currentStep s2 + 1\<rparr>,
                      Some (ReplaceFIFO newPage (page_id (pages s ! 0))))
                 | LRU \<Rightarrow>
                     (let leastRecent = leastRecentIndex (pages s) in
                      (s2\<lparr>pages := mark_leaving leastRecent (pages s2),
                          currentStep := currentStep s2 + 1\<rparr>,
                       Some (ReplaceLRU leastRecent newPage
                               (page_id (pages s ! leastRecent)))))))
           else if algorithmP s = LRU then
             (s1\<lparr>pages := map (\<lambda>p. if page_id p = newPage then p\<lparr>timestamp := now\<rparr> else p)
                              (pages s1),
                 currentStep := currentStep s1 + 1\<rparr>, None)
           else (s1\<lparr>currentStep := currentStep s1 + 1\<rparr>, None))
      else (s\<lparr>narration := NarrationDone, isNarrating := True\<rparr>, None))"

text \<open>
  The pending callback, run at clock reading \<open>now\<close> on the state \<open>s\<close> of that moment.
  The LRU callback assigns to the victim's slot of a copy of the array. The slot exists
  whenever no reset ran since the call, since every update of the array keeps or grows its
  length; after a reset the assignment would leave holes in the array, which a list does
  not have, so the LRU callback is not used there.
\<close>

definition runReplacement :: "int \<Rightarrow> replacement \<Rightarrow> page_state \<Rightarrow> page_state" where
  "runReplacement now r s =
     (case r of
        ReplaceFIFO newPage oldId \<Rightarrow>
          s\<lparr>pages := map (\<lambda>p. p\<lparr>isLeaving := Some False\<rparr>) (drop 1 (pages s))
                       @ [entering_page newPage now (Some oldId)]\<rparr>
      | ReplaceLRU leastRecent newPage oldId \<Rightarrow>
          s\<lparr>pages := (pages s)[leastRecent := entering_page newPage now (Some oldId)]\<rparr>)"

text \<open>
  One step of the simulation in the settled schedule: a call of \<open>handleNext\<close> at clock
  reading \<open>now\<close>, made by the handler of the current render, followed by its pending
  replacement at clock reading \<open>later\<close>, before any further call or reset; every call thus
  sees the state its predecessor left. The component does not enforce this schedule: the
  step button and the reset stay live while a replacement is pending, and the autoplay
  timer keeps the handler of the render before the replacement. Those schedules are
  \<open>two_calls\<close>, \<open>call_then_reset\<close> and \<open>play_step\<close> below. The timers that only end the
  display of the narration are left out.
\<close>

definition step :: "int \<Rightarrow> int \<Rightarrow> page_state \<Rightarrow> page_state" where
  "step now later s =
     (case handleNext now s of
        (s', None) \<Rightarrow> s'
      | (s', Some r) \<Rightarrow> runReplacement later r s')"

definition resetP :: "page_state \<Rightarrow> page_state" where
  "resetP s =
     s\<lparr>pages := [], currentStep := 0, pageFaults := 0, isPlayingP := False,
       narration := NarrationReset, isNarrating := True\<rparr>"

text \<open>The state of the first render, for a reference sequence and a selected algorithm.\<close>

definition page_init :: "int list \<Rightarrow> page_algorithm \<Rightarrow> page_state" where
  "page_init refs alg =
     \<lparr>pages = [], sequence = refs, currentStep = 0, isPlayingP = False, algorithmP = alg,
      pageFaults = 0, narration = NarrationEmpty, isNarrating = False\<rparr>"

definition default_sequence :: "int list" where
  "default_sequence = [1, 3, 0, 3, 5, 6, 3]"

text \<open>
  The states along a run of steps, the first one included; each step comes with its two
  clock readings.
\<close>

fun states :: "page_state \<Rightarrow> (int \<times> int) list \<Rightarrow> page_state list" where
  "states s [] = [s]"
| "states s ((now, later) # cs) = s # states (step now later s) cs"

text \<open>The commands of the user interface: a step with its clock readings, or a reset.\<close>

datatype page_event = Step int int | Reset

fun apply_event :: "page_event \<Rightarrow> page_state \<Rightarrow> page_state" where
  "apply_event (Step now later) s = step now later s"
| "apply_event Reset s = resetP s"

fun run_events :: "page_state \<Rightarrow> page_event list \<Rightarrow> page_state" where
  "run_events s [] = s"
| "run_events s (e # es) = run_events (apply_event e s) es"

definition resident :: "int \<Rightarrow> page_state \<Rightarrow> bool" where
  "resident x s = list_ex (\<lambda>p. page_id p = x) (pages s)"

text \<open>The step is a fault that has to evict: the referenced page is absent and the memory full.\<close>

definition evicting :: "page_state \<Rightarrow> bool" where
  "evicting s =
     (currentStep s < length (sequence s)
      \<and> \<not> resident (sequence s ! currentStep s) s
      \<and> \<not> length (pages s) < frameSize)"

text \<open>
  The clock reading a step takes, if any: \<open>Date.now()\<close> is called when a page is loaded
  into a free frame or touched by an LRU hit (during the call) and when a replacement
  runs (500 ms later); a FIFO hit and a call after the end of the sequence take none.
\<close>

definition reading_taken :: "int \<Rightarrow> int \<Rightarrow> page_state \<Rightarrow> int option" where
  "reading_taken now later s =
     (if \<not> currentStep s < length (sequence s) then None
      else if resident (sequence s ! currentStep s) s then
        (if algorithmP s = LRU then Some now else None)
      else if length (pages s) < frameSize then Some now
      else Some later)"

text \<open>
  The clock readings taken along a run increase strictly: every reading taken is later
  than \<open>b\<close> and than every reading taken before it.
\<close>

fun clock_increasing :: "int \<Rightarrow> page_state \<Rightarrow> page_event list \<Rightarrow> bool" where
  "clock_increasing b s [] = True"
| "clock_increasing b s (Step now later # es) =
     (case reading_taken now later s of
        None \<Rightarrow> clock_increasing b (step now later s) es
      | Some t \<Rightarrow> b < t \<and> clock_increasing t (step now later s) es)"
| "clock_increasing b s (Reset # es) = clock_increasing b (resetP s) es"

text \<open>
  A run under LRU with steps at consecutive milliseconds, a replacement and a reset.
\<close>

definition lru_events :: "page_event list" where
  "lru_events = [Step 1000 1500, Step 1001 1501, Reset, Step 1002 1502, Step 1003 1503,
     Step 1004 1504, Step 1005 1505, Step 1006 1506]"

subsection \<open>Calls outside the settled schedule\<close>

text \<open>
  \<open>handleNext\<close> is a closure of the render that created it: it reads \<open>currentStep\<close>,
  \<open>sequence\<close>, \<open>pages\<close> and \<open>algorithm\<close> as they were in that render \<open>r\<close>, while the
  updater functions it queues act on the state \<open>s\<close> current when they run.
  \<open>handleNext now s\<close> is the case in which the two are the same.
\<close>

definition handleNext_captured ::
    "int \<Rightarrow> page_state \<Rightarrow> page_state \<Rightarrow> page_state \<times> replacement option" where
  "handleNext_captured now r s =
     (if currentStep r < length (sequence r) then
        (let newPage = sequence r ! currentStep r;
             isPageFault = \<not> list_ex (\<lambda>p. page_id p = newPage) (pages r);
             s1 = s\<lparr>narration := getNarration (algorithmP r) (currentStep r) newPage isPageFault,
                    isNarrating := True\<rparr>
         in
           if isPageFault then
             (let s2 = s1\<lparr>pageFaults := pageFaults s1 + 1\<rparr> in
              if length (pages r) < frameSize then
                (s2\<lparr>pages := pages s2 @ [entering_page newPage now None],
                    currentStep := currentStep s2 + 1\<rparr>, None)
              else
                (case algorithmP r of
                   FIFO \<Rightarrow>
                     (s2\<lparr>pages := mark_leaving 0 (pages s2),
                         currentStep := currentStep s2 + 1\<rparr>,
                      Some (ReplaceFIFO newPage (page_id (pages r ! 0))))
                 | LRU \<Rightarrow>
                     (let leastRecent = leastRecentIndex (pages r) in
                      (s2\<lparr>pages := mark_leaving leastRecent (pages s2),
                          currentStep := currentStep s2 + 1\<rparr>,
                       Some (ReplaceLRU leastRecent newPage
                               (page_id (pages r ! leastRecent)))))))
           else if algorithmP r = LRU then
             (s1\<lparr>pages := map (\<lambda>p. if page_id p = newPage then p\<lparr>timestamp := now\<rparr> else p)
                              (pages s1),
                 currentStep := currentStep s1 + 1\<rparr>, None)
           else (s1\<lparr>currentStep := currentStep s1 + 1\<rparr>, None))
      else (s\<lparr>narration := NarrationDone, isNarrating := True\<rparr>, None))"

text \<open>
  One tick of the autoplay timer. The effect that installs the timer depends on
  \<open>isPlaying\<close> and \<open>currentStep\<close> only, so the timer holds the handler of the render in which
  \<open>currentStep\<close> last changed: the render \<open>r\<close> right after the previous call, before its
  replacement ran. The tick returns the render the next tick will hold and the state
  after the replacement.
\<close>

definition play_step ::
    "int \<Rightarrow> int \<Rightarrow> page_state \<times> page_state \<Rightarrow> page_state \<times> page_state" where
  "play_step now later rs =
     (case handleNext_captured now (fst rs) (snd rs) of
        (s', None) \<Rightarrow> (s', s')
      | (s', Some q) \<Rightarrow> (s', runReplacement later q s'))"

fun play :: "page_state \<times> page_state \<Rightarrow> (int \<times> int) list \<Rightarrow> page_state \<times> page_state" where
  "play rs [] = rs"
| "play rs ((now, later) # cs) = play (play_step now later rs) cs"

text \<open>The clock readings of autoplay: a tick every 3500 ms, a replacement 500 ms after it.\<close>

definition play_clock :: "(int \<times> int) list" where
  "play_clock = [(3500, 4000), (7000, 7500), (10500, 11000), (14000, 14500),
     (17500, 18000), (21000, 21500), (24500, 25000)]"

definition run_pending :: "int \<Rightarrow> replacement option \<Rightarrow> page_state \<Rightarrow> page_state" where
  "run_pending later p s = (case p of None \<Rightarrow> s | Some q \<Rightarrow> runReplacement later q s)"

text \<open>
  Two presses of the step button less than 500 ms apart: the second call is made by the
  handler of the render after the first call, and both replacements run afterwards.
\<close>

definition two_calls :: "int \<Rightarrow> int \<Rightarrow> int \<Rightarrow> int \<Rightarrow> page_state \<Rightarrow> page_state" where
  "two_calls now1 now2 later1 later2 s =
     (case handleNext now1 s of
        (s1, p1) \<Rightarrow>
          (case handleNext now2 s1 of
             (s2, p2) \<Rightarrow> run_pending later2 p2 (run_pending later1 p1 s2)))"

text \<open>A reset while a replacement is pending: \<open>reset\<close> clears no timer.\<close>

definition call_then_reset :: "int \<Rightarrow> int \<Rightarrow> page_state \<Rightarrow> page_state" where
  "call_then_reset now later s =
     (case handleNext now s of (s1, p1) \<Rightarrow> run_pending later p1 (resetP s1))"

text \<open>The state under FIFO in which 1, 2, 3 are in memory and two references to 4 follow.\<close>

definition repeat_state :: page_state where
  "repeat_state = run_events (page_init [1, 2, 3, 4, 4] FIFO)
     [Step 1000 1500, Step 2000 2500, Step 3000 3500]"

subsection \<open>Notions of the spec and example runs\<close>

text \<open>
  The spec's \<open>spec_loadOrder\<close> of a page along a run: the number of the step at which the
  page last entered memory (0 when it never did).
\<close>

definition spec_loadOrder :: "page_state list \<Rightarrow> int \<Rightarrow> nat" where
  "spec_loadOrder tr x =
     last (0 # filter (\<lambda>k. resident x (tr ! k) \<and> \<not> resident x (tr ! (k - 1)))
                 [1..<length tr])"

text \<open>
  The victim in the spec's words, at the end of a run: the slot of the resident page with
  the smallest \<open>timestamp\<close>, ties broken by the smallest \<open>spec_loadOrder\<close>.
\<close>

definition spec_lru_victim :: "page_state list \<Rightarrow> nat" where
  "spec_lru_victim tr =
     (let ps = pages (last tr) in
      foldl (\<lambda>m i.
          if timestamp (ps ! i) < timestamp (ps ! m)
             \<or> (timestamp (ps ! i) = timestamp (ps ! m)
                 \<and> spec_loadOrder tr (page_id (ps ! i)) < spec_loadOrder tr (page_id (ps ! m)))
          then i else m)
        0 [0..<length ps])"

text \<open>
  A run under LRU in which the click for the fifth step falls into the millisecond in
  which the replacement of the fourth step ran.
\<close>

definition tie_run :: "page_state list" where
  "tie_run = states (page_init [1, 2, 3, 4, 2, 3, 5] LRU)
     [(1000, 1500), (2000, 2500), (3000, 3500), (4000, 4500), (4500, 5000), (5000, 5500)]"

text \<open>The state reached under FIFO after the first four references of the default sequence.\<close>

definition fifo_full_state :: page_state where
  "fifo_full_state = run_events (page_init default_sequence FIFO)
     [Step 0 500, Step 1000 1500, Step 2000 2500, Step 3000 3500]"

text \<open>The state in which a single request has just been served.\<close>

definition served_state :: "disk_algorithm \<Rightarrow> disk_state" where
  "served_state alg = moveHead (disk_init [60] alg)"

section \<open>Properties of disk scheduling\<close>

lemmas disk_eval = getNextRequest_def moveHead_def disk_init_def unserved_def closer_def
  new_request_def first_elem_def sort_asc_def sort_desc_def mark_served_def all_served_def

subsection \<open>Selection and movement lemmas\<close>

lemma foldl_closer_Some:
  "sorted_wrt (<) (map fst (c # xs)) \<Longrightarrow>
   \<exists>r. foldl (closer h) (Some c) xs = Some r \<and> r \<in> set (c # xs)
     \<and> (\<forall>x \<in> set (c # xs).
           seek_distance h r \<le> seek_distance h x
         \<and> (seek_distance h x = seek_distance h r \<longrightarrow> fst r \<le> fst x))"
proof (induction xs arbitrary: c)
  case Nil
  then show ?case by simp
next
  case (Cons x xs)
  show ?case
  proof (cases "seek_distance h x < seek_distance h c")
    case True
    have step: "closer h (Some c) x = Some x"
      using True by (simp add: closer_def seek_distance_def)
    from Cons.prems have "sorted_wrt (<) (map fst (x # xs))" by simp
    from Cons.IH [OF this] obtain r where
      r: "foldl (closer h) (Some x) xs = Some r" "r \<in> set (x # xs)"
         "\<forall>y \<in> set (x # xs).
             seek_distance h r \<le> seek_distance h y
           \<and> (seek_distance h y = seek_distance h r \<longrightarrow> fst r \<le> fst y)"
      by blast
    from r(3) have "seek_distance h r \<le> seek_distance h x" by simp
    with True have "seek_distance h r < seek_distance h c" by simp
    with r step show ?thesis by auto
  next
    case False
    have step: "closer h (Some c) x = Some c"
      using False by (simp add: closer_def seek_distance_def)
    from Cons.prems have "sorted_wrt (<) (map fst (c # xs))" by auto
    from Cons.IH [OF this] obtain r where
      r: "foldl (closer h) (Some c) xs = Some r" "r \<in> set (c # xs)"
         "\<forall>y \<in> set (c # xs).
             seek_distance h r \<le> seek_distance h y
           \<and> (seek_distance h y = seek_distance h r \<longrightarrow> fst r \<le> fst y)"
      by blast
    from r(3) have rc: "seek_distance h r \<le> seek_distance h c"
        "seek_distance h c = seek_distance h r \<longrightarrow> fst r \<le> fst c"
      by simp_all
    from Cons.prems have "fst c < fst x" by simp
    with rc False have "seek_distance h r \<le> seek_distance h x
        \<and> (seek_distance h x = seek_distance h r \<longrightarrow> fst r \<le> fst x)"
      by auto
    with r step show ?thesis by auto
  qed
qed

lemma sorted_wrt_fst_unserved: "sorted_wrt (<) (map fst (unserved rs))"
proof -
  have "sorted_wrt (<) (map fst (enumerate 0 rs))"
    by (simp add: sorted_wrt_upt del: sorted_wrt_map)
  then have "sorted_wrt (\<lambda>x y. fst x < fst y) (enumerate 0 rs)"
    by (simp only: sorted_wrt_map)
  then have "sorted_wrt (\<lambda>x y. fst x < fst y) (unserved rs)"
    unfolding unserved_def by (rule sorted_wrt_filter)
  then show ?thesis
    by (simp only: sorted_wrt_map)
qed

lemma in_unserved_iff:
  "(i, r) \<in> set (unserved rs) \<longleftrightarrow> i < length rs \<and> r = rs ! i \<and> \<not> isServed (rs ! i)"
  by (auto simp: unserved_def in_set_enumerate_eq)

lemma sstf_Some:
  assumes "unserved rs \<noteq> []"
  shows "\<exists>i r. foldl (closer h) None (unserved rs) = Some (i, r)
     \<and> i < length rs \<and> r = rs ! i \<and> \<not> isServed r
     \<and> (\<forall>j < length rs. \<not> isServed (rs ! j) \<longrightarrow>
           \<bar>position r - h\<bar> \<le> \<bar>position (rs ! j) - h\<bar>
         \<and> (\<bar>position (rs ! j) - h\<bar> = \<bar>position r - h\<bar> \<longrightarrow> i \<le> j))"
proof -
  from assms obtain c xs where cx: "unserved rs = c # xs"
    by (cases "unserved rs") auto
  have "sorted_wrt (<) (map fst (c # xs))"
    using sorted_wrt_fst_unserved [of rs] by (simp only: cx)
  from foldl_closer_Some [OF this, of h] obtain p where
    p: "foldl (closer h) (Some c) xs = Some p" "p \<in> set (c # xs)"
       "\<forall>x \<in> set (c # xs).
           seek_distance h p \<le> seek_distance h x
         \<and> (seek_distance h x = seek_distance h p \<longrightarrow> fst p \<le> fst x)"
    by blast
  obtain i r where ir: "p = (i, r)" by (cases p)
  have fold: "foldl (closer h) None (unserved rs) = Some (i, r)"
    using p(1) by (simp add: cx closer_def ir)
  have mem: "(i, r) \<in> set (unserved rs)"
    using p(2) by (simp only: cx ir)
  then have props: "i < length rs" "r = rs ! i" "\<not> isServed r"
    by (simp_all add: in_unserved_iff)
  have "\<bar>position r - h\<bar> \<le> \<bar>position (rs ! j) - h\<bar>
         \<and> (\<bar>position (rs ! j) - h\<bar> = \<bar>position r - h\<bar> \<longrightarrow> i \<le> j)"
    if j: "j < length rs" "\<not> isServed (rs ! j)" for j
  proof -
    from j have "(j, rs ! j) \<in> set (c # xs)"
      by (simp add: in_unserved_iff flip: cx)
    with p(3) show ?thesis
      by (fastforce simp: seek_distance_def ir)
  qed
  with fold props show ?thesis by blast
qed

lemma first_elem_None: "first_elem xs = None \<longleftrightarrow> xs = []"
  by (cases xs) (simp_all add: first_elem_def)

lemma first_elem_sort_key:
  assumes "first_elem (sort_key f xs) = Some y"
  shows "y \<in> set xs \<and> (\<forall>x \<in> set xs. f y \<le> f x)"
proof -
  from assms obtain ys where ys: "sort_key f xs = y # ys"
    by (cases "sort_key f xs") (simp_all add: first_elem_def)
  have "set (sort_key f xs) = set xs" by simp
  then have mem: "set xs = set (y # ys)" by (simp only: ys)
  have "sorted (map f (sort_key f xs))" by (rule sorted_sort_key)
  then have "\<forall>x \<in> set ys. f y \<le> f x" by (simp add: ys)
  with mem show ?thesis by auto
qed

lemma first_elem_sort_key_None: "first_elem (sort_key f xs) = None \<longleftrightarrow> xs = []"
proof -
  have "length (sort_key f xs) = length xs" by simp
  then have "sort_key f xs = [] \<longleftrightarrow> xs = []" by (metis length_0_conv)
  then show ?thesis by (simp add: first_elem_None)
qed

lemma in_filter_unserved:
  "(i, r) \<in> set (filter (\<lambda>(i, r). P r) (unserved rs))
     \<longleftrightarrow> i < length rs \<and> r = rs ! i \<and> \<not> isServed (rs ! i) \<and> P (rs ! i)"
  by (auto simp: in_unserved_iff)

lemma first_asc:
  assumes "first_elem (sort_asc (filter (\<lambda>(i, r). P r) (unserved rs))) = Some y"
  shows "fst y < length rs \<and> snd y = rs ! fst y \<and> \<not> isServed (rs ! fst y) \<and> P (rs ! fst y)
     \<and> (\<forall>j < length rs. \<not> isServed (rs ! j) \<and> P (rs ! j)
            \<longrightarrow> position (rs ! fst y) \<le> position (rs ! j))"
proof -
  let ?xs = "filter (\<lambda>(i, r). P r) (unserved rs)"
  from first_elem_sort_key [OF assms [unfolded sort_asc_def]]
  have y: "y \<in> set ?xs"
    and le: "\<forall>x \<in> set ?xs. position (snd y) \<le> position (snd x)"
    by (auto simp: case_prod_beta)
  from y have props: "fst y < length rs" "snd y = rs ! fst y" "\<not> isServed (rs ! fst y)"
      "P (rs ! fst y)"
    using in_filter_unserved [of "fst y" "snd y" P rs] by simp_all
  have "position (rs ! fst y) \<le> position (rs ! j)"
    if "j < length rs" "\<not> isServed (rs ! j)" "P (rs ! j)" for j
  proof -
    from that have "(j, rs ! j) \<in> set ?xs" by (simp only: in_filter_unserved) simp
    with le props(2) show ?thesis by fastforce
  qed
  with props show ?thesis by blast
qed

lemma first_desc:
  assumes "first_elem (sort_desc (filter (\<lambda>(i, r). P r) (unserved rs))) = Some y"
  shows "fst y < length rs \<and> snd y = rs ! fst y \<and> \<not> isServed (rs ! fst y) \<and> P (rs ! fst y)
     \<and> (\<forall>j < length rs. \<not> isServed (rs ! j) \<and> P (rs ! j)
            \<longrightarrow> position (rs ! j) \<le> position (rs ! fst y))"
proof -
  let ?xs = "filter (\<lambda>(i, r). P r) (unserved rs)"
  from first_elem_sort_key [OF assms [unfolded sort_desc_def]]
  have y: "y \<in> set ?xs"
    and le: "\<forall>x \<in> set ?xs. position (snd x) \<le> position (snd y)"
    by (auto simp: case_prod_beta)
  from y have props: "fst y < length rs" "snd y = rs ! fst y" "\<not> isServed (rs ! fst y)"
      "P (rs ! fst y)"
    using in_filter_unserved [of "fst y" "snd y" P rs] by simp_all
  have "position (rs ! j) \<le> position (rs ! fst y)"
    if "j < length rs" "\<not> isServed (rs ! j)" "P (rs ! j)" for j
  proof -
    from that have "(j, rs ! j) \<in> set ?xs" by (simp only: in_filter_unserved) simp
    with le props(2) show ?thesis by fastforce
  qed
  with props show ?thesis by blast
qed

lemma first_filter_None:
  "first_elem (sort_key f (filter (\<lambda>(i, r). P r) (unserved rs))) = None
     \<longleftrightarrow> (\<forall>j < length rs. \<not> isServed (rs ! j) \<longrightarrow> \<not> P (rs ! j))"
proof -
  have "filter (\<lambda>(i, r). P r) (unserved rs) = []
      \<longleftrightarrow> (\<forall>p \<in> set (unserved rs). \<not> P (snd p))"
    by (auto simp: filter_empty_conv)
  also have "\<dots> \<longleftrightarrow> (\<forall>j < length rs. \<not> isServed (rs ! j) \<longrightarrow> \<not> P (rs ! j))"
  proof
    assume a: "\<forall>p \<in> set (unserved rs). \<not> P (snd p)"
    show "\<forall>j < length rs. \<not> isServed (rs ! j) \<longrightarrow> \<not> P (rs ! j)"
    proof (intro allI impI)
      fix j assume "j < length rs" "\<not> isServed (rs ! j)"
      then have "(j, rs ! j) \<in> set (unserved rs)" by (simp add: in_unserved_iff)
      with a show "\<not> P (rs ! j)" by fastforce
    qed
  next
    assume "\<forall>j < length rs. \<not> isServed (rs ! j) \<longrightarrow> \<not> P (rs ! j)"
    then show "\<forall>p \<in> set (unserved rs). \<not> P (snd p)"
      by (auto simp: in_unserved_iff)
  qed
  finally show ?thesis by (simp only: first_elem_sort_key_None)
qed

lemma moveHead_direction: "direction (moveHead s) = snd (getNextRequest s)"
  by (cases "getNextRequest s") (auto simp: moveHead_def split: option.splits)

lemma moveHead_algorithm: "algorithmD (moveHead s) = algorithmD s"
  by (cases "getNextRequest s") (auto simp: moveHead_def split: option.splits)

lemma moveHead_Some:
  "getNextRequest s = (Some (i, r), d) \<Longrightarrow>
     totalSeekTime (moveHead s) = totalSeekTime s + \<bar>position r - headPosition s\<bar>
     \<and> headPosition (moveHead s) = position r
     \<and> requests (moveHead s) = mark_served i (requests s)"
  by (simp add: moveHead_def)

lemma moveHead_None:
  "fst (getNextRequest s) = None \<Longrightarrow>
     moveHead s = s\<lparr>isPlayingD := False, direction := snd (getNextRequest s)\<rparr>"
  by (cases "getNextRequest s") (simp add: moveHead_def)

lemma moveHead_cost:
  "totalSeekTime (moveHead s) = totalSeekTime s + \<bar>headPosition (moveHead s) - headPosition s\<bar>"
  by (cases "getNextRequest s") (auto simp: moveHead_def split: option.splits)

lemma hd_head_trace: "head_trace n s = headPosition s # tl (head_trace n s)"
  by (cases n) simp_all

lemma seek_sum_head_trace:
  "seek_sum (headPosition s # head_trace n (moveHead s))
     = \<bar>headPosition (moveHead s) - headPosition s\<bar> + seek_sum (head_trace n (moveHead s))"
  by (subst (2 1) hd_head_trace) simp

lemma total_after_calls:
  "totalSeekTime ((moveHead ^^ n) s) = totalSeekTime s + seek_sum (head_trace n s)"
proof (induction n arbitrary: s)
  case 0
  then show ?case by simp
next
  case (Suc n)
  have "totalSeekTime ((moveHead ^^ Suc n) s) = totalSeekTime ((moveHead ^^ n) (moveHead s))"
    by (simp only: funpow_Suc_right comp_apply)
  also have "\<dots> = totalSeekTime (moveHead s) + seek_sum (head_trace n (moveHead s))"
    by (rule Suc.IH)
  also have "\<dots> = totalSeekTime s + seek_sum (head_trace (Suc n) s)"
    by (simp only: head_trace.simps seek_sum_head_trace moveHead_cost [of s])
  finally show ?case .
qed

lemma unserved_all_served: "all_served s \<Longrightarrow> unserved (requests s) = []"
  by (auto simp: all_served_def unserved_def filter_empty_conv list_all_iff in_set_enumerate_eq)

lemma getNext_all_served:
  assumes "all_served s"
  shows "getNextRequest s =
    (None, if algorithmD s = SCAN then opposite (direction s) else direction s)"
proof (cases "algorithmD s")
  case FCFS
  have "find (\<lambda>(i, r). \<not> isServed r) (enumerate 0 (requests s)) = None"
    using assms
    by (auto simp: find_None_iff all_served_def list_all_iff in_set_enumerate_eq)
  with FCFS show ?thesis by (simp add: getNextRequest_def)
next
  case SSTF
  with unserved_all_served [OF assms] show ?thesis by (simp add: getNextRequest_def)
next
  case SCAN
  with unserved_all_served [OF assms] show ?thesis
    by (cases "direction s")
      (simp_all add: getNextRequest_def first_elem_def sort_asc_def sort_desc_def opposite_def)
qed

lemma moveHead_all_served:
  assumes "all_served s"
  shows "moveHead s = s\<lparr>isPlayingD := False,
      direction := (if algorithmD s = SCAN then opposite (direction s) else direction s)\<rparr>"
  using moveHead_None [of s] getNext_all_served [OF assms] by simp

lemma idle_calls:
  assumes "all_served s"
  shows "all_served ((moveHead ^^ n) s)
     \<and> algorithmD ((moveHead ^^ n) s) = algorithmD s
     \<and> requests ((moveHead ^^ n) s) = requests s
     \<and> headPosition ((moveHead ^^ n) s) = headPosition s
     \<and> totalSeekTime ((moveHead ^^ n) s) = totalSeekTime s
     \<and> direction ((moveHead ^^ n) s) =
         (if algorithmD s = SCAN then (opposite ^^ n) (direction s) else direction s)"
proof (induction n)
  case 0
  with assms show ?case by simp
next
  case (Suc n)
  let ?t = "(moveHead ^^ n) s"
  from Suc have t: "all_served ?t" by simp
  have "(moveHead ^^ Suc n) s = moveHead ?t" by simp
  also have "\<dots> = ?t\<lparr>isPlayingD := False,
      direction := (if algorithmD ?t = SCAN then opposite (direction ?t) else direction ?t)\<rparr>"
    by (rule moveHead_all_served [OF t])
  finally have eq: "(moveHead ^^ Suc n) s = ?t\<lparr>isPlayingD := False,
      direction := (if algorithmD ?t = SCAN then opposite (direction ?t) else direction ?t)\<rparr>" .
  show ?case
    unfolding eq using Suc assms by (simp add: all_served_def)
qed

subsection \<open>The claims about disk scheduling\<close>

text \<open>
  C1. Under SSTF, whenever some request is unserved, the selected request is an unserved
  one whose distance to the head is at most the distance of every unserved request, and
  among the unserved requests at that smallest distance it is the one in the earliest
  slot of the array.
\<close>

theorem sstf_selects_nearest_earliest:
  assumes "algorithmD s = SSTF"
    and "k < length (requests s)" and "\<not> isServed (requests s ! k)"
  shows "\<exists>i < length (requests s).
      fst (getNextRequest s) = Some (i, requests s ! i)
    \<and> \<not> isServed (requests s ! i)
    \<and> (\<forall>j < length (requests s). \<not> isServed (requests s ! j) \<longrightarrow>
          \<bar>position (requests s ! i) - headPosition s\<bar>
            \<le> \<bar>position (requests s ! j) - headPosition s\<bar>
        \<and> (\<bar>position (requests s ! j) - headPosition s\<bar>
             = \<bar>position (requests s ! i) - headPosition s\<bar> \<longrightarrow> i \<le> j))"
proof -
  from assms(2,3) have "(k, requests s ! k) \<in> set (unserved (requests s))"
    by (simp add: in_unserved_iff)
  then have "unserved (requests s) \<noteq> []" by auto
  from sstf_Some [OF this, of "headPosition s"] assms(1) show ?thesis
    by (auto simp: getNextRequest_def)
qed

theorem sstf_selects_nearest_earliest_witness:
  "algorithmD (disk_init [60, 40, 45, 55] SSTF) = SSTF
   \<and> (0::nat) < length (requests (disk_init [60, 40, 45, 55] SSTF))
   \<and> \<not> isServed (requests (disk_init [60, 40, 45, 55] SSTF) ! 0)
   \<and> fst (getNextRequest (disk_init [60, 40, 45, 55] SSTF)) = Some (2, new_request 45)"
  using sstf_selects_nearest_earliest [of "disk_init [60, 40, 45, 55] SSTF" 0]
  by (simp add: getNextRequest_def disk_init_def unserved_def closer_def new_request_def)

text \<open>
  C2. Under SCAN with direction Up, the selected request is an unserved one with the
  smallest position among those at or above the head; when there is none, the direction
  becomes Down, also in the state after \<open>moveHead\<close>, and the selected request is an
  unserved one with the largest position below the head (none when nothing is unserved).
  With the head at 50 and the requests 98, 183, 37, 122, 14, 124, 65, 67 the first
  request selected is the one at 65.
\<close>

theorem scan_up_selection:
  "(algorithmD s = SCAN \<and> direction s = Up \<longrightarrow>
     ((\<exists>j < length (requests s). \<not> isServed (requests s ! j)
           \<and> headPosition s \<le> position (requests s ! j)) \<longrightarrow>
        (\<exists>i < length (requests s).
            getNextRequest s = (Some (i, requests s ! i), Up)
          \<and> direction (moveHead s) = Up
          \<and> \<not> isServed (requests s ! i)
          \<and> headPosition s \<le> position (requests s ! i)
          \<and> (\<forall>j < length (requests s). \<not> isServed (requests s ! j)
                 \<and> headPosition s \<le> position (requests s ! j)
               \<longrightarrow> position (requests s ! i) \<le> position (requests s ! j))))
   \<and> (\<not> (\<exists>j < length (requests s). \<not> isServed (requests s ! j)
           \<and> headPosition s \<le> position (requests s ! j)) \<longrightarrow>
          snd (getNextRequest s) = Down
        \<and> direction (moveHead s) = Down
        \<and> ((\<exists>j < length (requests s). \<not> isServed (requests s ! j)) \<longrightarrow>
            (\<exists>i < length (requests s).
                fst (getNextRequest s) = Some (i, requests s ! i)
              \<and> \<not> isServed (requests s ! i)
              \<and> position (requests s ! i) < headPosition s
              \<and> (\<forall>j < length (requests s). \<not> isServed (requests s ! j)
                     \<and> position (requests s ! j) < headPosition s
                   \<longrightarrow> position (requests s ! j) \<le> position (requests s ! i))))
        \<and> (\<not> (\<exists>j < length (requests s). \<not> isServed (requests s ! j)) \<longrightarrow>
            fst (getNextRequest s) = None)))
   \<and> fst (getNextRequest (disk_init default_positions SCAN)) = Some (6, new_request 65)
   \<and> headPosition (moveHead (disk_init default_positions SCAN)) = 65"
proof (intro conjI impI; (elim conjE)?)
  let ?rs = "requests s"
  let ?h = "headPosition s"
  let ?up = "filter (\<lambda>(i, r). ?h \<le> position r) (unserved ?rs)"
  let ?down = "filter (\<lambda>(i, r). position r < ?h) (unserved ?rs)"
  assume alg: "algorithmD s = SCAN" and dir: "direction s = Up"
  have get: "getNextRequest s =
      (case first_elem (sort_asc ?up) of
         Some nextUp \<Rightarrow> (Some nextUp, Up)
       | None \<Rightarrow> (first_elem (sort_desc ?down), Down))"
    using alg dir by (simp add: getNextRequest_def Let_def split: option.split)
  {
    assume ex: "\<exists>j < length ?rs. \<not> isServed (?rs ! j) \<and> ?h \<le> position (?rs ! j)"
    have "first_elem (sort_asc ?up) \<noteq> None"
      unfolding sort_asc_def
      using ex first_filter_None [of _ "\<lambda>r. ?h \<le> position r" ?rs] by blast
    then obtain y where y: "first_elem (sort_asc ?up) = Some y" by blast
    from first_asc [of "\<lambda>r. ?h \<le> position r" ?rs y] y
    have props: "fst y < length ?rs" "snd y = ?rs ! fst y" "\<not> isServed (?rs ! fst y)"
        "?h \<le> position (?rs ! fst y)"
        "\<forall>j < length ?rs. \<not> isServed (?rs ! j) \<and> ?h \<le> position (?rs ! j)
            \<longrightarrow> position (?rs ! fst y) \<le> position (?rs ! j)"
      by simp_all
    have g: "getNextRequest s = (Some (fst y, ?rs ! fst y), Up)"
      using get y props(2) by (cases y) simp
    then have "direction (moveHead s) = Up"
      by (simp add: moveHead_direction)
    with g props show "\<exists>i < length ?rs.
            getNextRequest s = (Some (i, ?rs ! i), Up)
          \<and> direction (moveHead s) = Up
          \<and> \<not> isServed (?rs ! i)
          \<and> ?h \<le> position (?rs ! i)
          \<and> (\<forall>j < length ?rs. \<not> isServed (?rs ! j) \<and> ?h \<le> position (?rs ! j)
               \<longrightarrow> position (?rs ! i) \<le> position (?rs ! j))"
      by blast
  }
  assume nex: "\<not> (\<exists>j < length ?rs. \<not> isServed (?rs ! j) \<and> ?h \<le> position (?rs ! j))"
  have none: "first_elem (sort_asc ?up) = None"
    unfolding sort_asc_def
    using nex first_filter_None [of _ "\<lambda>r. ?h \<le> position r" ?rs] by blast
  with get have g: "getNextRequest s = (first_elem (sort_desc ?down), Down)" by simp
  then show "snd (getNextRequest s) = Down" by simp
  then show "direction (moveHead s) = Down" by (simp add: moveHead_direction)
  {
    assume ex: "\<exists>j < length ?rs. \<not> isServed (?rs ! j)"
    with nex have "\<exists>j < length ?rs. \<not> isServed (?rs ! j) \<and> position (?rs ! j) < ?h"
      by (meson not_le)
    then have "first_elem (sort_desc ?down) \<noteq> None"
      unfolding sort_desc_def
      using first_filter_None [of _ "\<lambda>r. position r < ?h" ?rs] by blast
    then obtain y where y: "first_elem (sort_desc ?down) = Some y" by blast
    from first_desc [of "\<lambda>r. position r < ?h" ?rs y] y
    have props: "fst y < length ?rs" "snd y = ?rs ! fst y" "\<not> isServed (?rs ! fst y)"
        "position (?rs ! fst y) < ?h"
        "\<forall>j < length ?rs. \<not> isServed (?rs ! j) \<and> position (?rs ! j) < ?h
            \<longrightarrow> position (?rs ! j) \<le> position (?rs ! fst y)"
      by simp_all
    have "fst (getNextRequest s) = Some (fst y, ?rs ! fst y)"
      using g y props(2) by (cases y) simp
    with props show "\<exists>i < length ?rs.
                fst (getNextRequest s) = Some (i, ?rs ! i)
              \<and> \<not> isServed (?rs ! i)
              \<and> position (?rs ! i) < ?h
              \<and> (\<forall>j < length ?rs. \<not> isServed (?rs ! j) \<and> position (?rs ! j) < ?h
                   \<longrightarrow> position (?rs ! j) \<le> position (?rs ! i))"
      by blast
  }
  {
    assume "\<not> (\<exists>j < length ?rs. \<not> isServed (?rs ! j))"
    then have "first_elem (sort_desc ?down) = None"
      unfolding sort_desc_def
      using first_filter_None [of _ "\<lambda>r. position r < ?h" ?rs] by blast
    with g show "fst (getNextRequest s) = None" by simp
  }
next
  show "fst (getNextRequest (disk_init default_positions SCAN)) = Some (6, new_request 65)"
    by (simp add: getNextRequest_def disk_init_def default_positions_def unserved_def
        first_elem_def sort_asc_def new_request_def)
next
  show "headPosition (moveHead (disk_init default_positions SCAN)) = 65"
    by (simp add: moveHead_def getNextRequest_def disk_init_def default_positions_def
        unserved_def first_elem_def sort_asc_def new_request_def)
qed

theorem scan_up_selection_witness:
  "algorithmD (disk_init default_positions SCAN) = SCAN
   \<and> direction (disk_init default_positions SCAN) = Up
   \<and> getNextRequest (disk_init default_positions SCAN) = (Some (6, new_request 65), Up)
   \<and> algorithmD (disk_init [10, 30, 20] SCAN) = SCAN
   \<and> direction (disk_init [10, 30, 20] SCAN) = Up
   \<and> getNextRequest (disk_init [10, 30, 20] SCAN) = (Some (1, new_request 30), Down)
   \<and> direction (moveHead (disk_init [10, 30, 20] SCAN)) = Down"
  using scan_up_selection [of "disk_init default_positions SCAN"]
    scan_up_selection [of "disk_init [10, 30, 20] SCAN"]
  by (simp add: default_positions_def disk_eval)

text \<open>
  C5. SSTF with the head at 50 on the requests 98, 183, 37, 122, 14, 124, 65, 67: the
  first request selected is the one at position 37 (slot 2, distance 13), and the total
  seek time after the first step is 13.
\<close>

theorem sstf_first_step:
  "fst (getNextRequest (disk_init default_positions SSTF)) = Some (2, new_request 37)
   \<and> \<bar>position (new_request 37) - headPosition (disk_init default_positions SSTF)\<bar> = 13
   \<and> totalSeekTime (moveHead (disk_init default_positions SSTF)) = 13
   \<and> headPosition (moveHead (disk_init default_positions SSTF)) = 37"
  by (simp add: getNextRequest_def moveHead_def disk_init_def default_positions_def
      unserved_def closer_def new_request_def)

text \<open>
  C7. After any number of calls of \<open>moveHead\<close> the total seek time has grown by the sum
  of the distances between consecutive head positions, so from the initial state and from
  a reset it equals that sum; a call that selects a request adds the distance from the
  head to the request and moves the head there.
\<close>

theorem seek_cost_additive:
  "totalSeekTime ((moveHead ^^ n) s) = totalSeekTime s + seek_sum (head_trace n s)
   \<and> totalSeekTime ((moveHead ^^ n) (disk_init ps alg)) = seek_sum (head_trace n (disk_init ps alg))
   \<and> totalSeekTime ((moveHead ^^ n) (resetD s)) = seek_sum (head_trace n (resetD s))
   \<and> (getNextRequest s = (Some (i, r), d) \<longrightarrow>
        totalSeekTime (moveHead s) = totalSeekTime s + \<bar>position r - headPosition s\<bar>
      \<and> headPosition (moveHead s) = position r)"
  using total_after_calls [of n s] total_after_calls [of n "disk_init ps alg"]
    total_after_calls [of n "resetD s"] moveHead_Some [of s i r d]
  by (simp add: disk_init_def resetD_def)

theorem seek_cost_additive_witness:
  "getNextRequest (disk_init default_positions FCFS) = (Some (0, new_request 98), Up)
   \<and> totalSeekTime (moveHead (disk_init default_positions FCFS)) = 48
   \<and> headPosition (moveHead (disk_init default_positions FCFS)) = 98
   \<and> seek_sum (head_trace (Suc 0) (disk_init default_positions FCFS)) = 48"
proof -
  let ?s = "disk_init default_positions FCFS"
  have g: "getNextRequest ?s = (Some (0, new_request 98), Up)"
    by (simp add: default_positions_def disk_eval)
  from seek_cost_additive [of "Suc 0" ?s default_positions FCFS 0 "new_request 98" Up] g
  have "totalSeekTime (moveHead ?s) = seek_sum (head_trace (Suc 0) ?s)"
    and "totalSeekTime (moveHead ?s)
        = totalSeekTime ?s + \<bar>position (new_request 98) - headPosition ?s\<bar>"
    and "headPosition (moveHead ?s) = position (new_request 98)"
    by simp_all
  with g show ?thesis
    by (simp add: disk_init_def new_request_def)
qed

text \<open>
  C10. Under SCAN with every request served, a call of \<open>moveHead\<close> selects nothing and
  leaves the requests, the head position and the total seek time as they are, but turns
  the direction around; this holds for every further call.
\<close>

theorem scan_idle_toggles_direction:
  assumes "algorithmD s = SCAN" and "all_served s"
  shows "fst (getNextRequest s) = None
    \<and> requests (moveHead s) = requests s
    \<and> headPosition (moveHead s) = headPosition s
    \<and> totalSeekTime (moveHead s) = totalSeekTime s
    \<and> direction (moveHead s) = opposite (direction s)
    \<and> requests ((moveHead ^^ n) s) = requests s
    \<and> headPosition ((moveHead ^^ n) s) = headPosition s
    \<and> totalSeekTime ((moveHead ^^ n) s) = totalSeekTime s
    \<and> direction ((moveHead ^^ n) s) = (opposite ^^ n) (direction s)"
  using assms getNext_all_served [OF assms(2)] moveHead_all_served [OF assms(2)]
    idle_calls [OF assms(2), of n]
  by simp

theorem scan_idle_toggles_direction_witness:
  "algorithmD (served_state SCAN) = SCAN \<and> all_served (served_state SCAN)
   \<and> direction (served_state SCAN) = Up
   \<and> direction (moveHead (served_state SCAN)) = Down
   \<and> direction (moveHead (moveHead (served_state SCAN))) = Up
   \<and> headPosition (moveHead (moveHead (served_state SCAN))) = 60"
  using scan_idle_toggles_direction [of "served_state SCAN" 0]
  by (simp add: served_state_def disk_eval opposite_def)

section \<open>Properties of page replacement\<close>

lemmas page_eval = page_init_def step_def handleNext_def Let_def frameSize_def
  entering_page_def getNarration_def runReplacement_def mark_leaving_def leastRecentIndex_def
  resident_def evicting_def

subsection \<open>The effect of one step\<close>

lemma length_mark_leaving: "length (mark_leaving k ps) = length ps"
  by (simp add: mark_leaving_def)

lemma nth_mark_leaving:
  "j < length ps \<Longrightarrow>
     mark_leaving k ps ! j = (if j = k then (ps ! j)\<lparr>isLeaving := Some True\<rparr> else ps ! j)"
  by (simp add: mark_leaving_def nth_enumerate_eq)

lemma mark_leaving_update:
  "(mark_leaving k ps)[k := p] = ps[k := p]"
proof (rule nth_equalityI)
  show "length ((mark_leaving k ps)[k := p]) = length (ps[k := p])"
    by (simp add: length_mark_leaving)
next
  fix i assume "i < length ((mark_leaving k ps)[k := p])"
  then have i: "i < length ps" by (simp add: length_mark_leaving)
  then show "(mark_leaving k ps)[k := p] ! i = ps[k := p] ! i"
    by (cases "i = k") (simp_all add: length_mark_leaving nth_mark_leaving)
qed

lemma drop_mark_leaving: "drop (Suc 0) (mark_leaving 0 ps) = drop (Suc 0) ps"
  by (rule nth_equalityI) (simp_all add: length_mark_leaving nth_mark_leaving)

lemma scan_min_index:
  fixes t :: "nat \<Rightarrow> int"
  defines "m n \<equiv> foldl (\<lambda>min i. if t i < t min then i else min) 0 [0..<Suc n]"
  shows "m n \<le> n \<and> (\<forall>j \<le> n. t (m n) \<le> t j) \<and> (\<forall>j < m n. t (m n) < t j)"
proof (induction n)
  case 0
  show ?case by (simp add: m_def)
next
  case (Suc n)
  have rec: "m (Suc n) = (if t (Suc n) < t (m n) then Suc n else m n)"
    by (simp add: m_def)
  show ?case
  proof (cases "t (Suc n) < t (m n)")
    case True
    with rec have eq: "m (Suc n) = Suc n" by simp
    have "t (Suc n) \<le> t j" if "j \<le> Suc n" for j
    proof (cases "j = Suc n")
      case True then show ?thesis by simp
    next
      case False
      with that have "j \<le> n" by simp
      with Suc have "t (m n) \<le> t j" by blast
      with \<open>t (Suc n) < t (m n)\<close> show ?thesis by simp
    qed
    moreover have "t (Suc n) < t j" if "j < Suc n" for j
    proof -
      from that have "j \<le> n" by simp
      with Suc have "t (m n) \<le> t j" by blast
      with \<open>t (Suc n) < t (m n)\<close> show ?thesis by simp
    qed
    ultimately show ?thesis unfolding eq by blast
  next
    case False
    with rec have eq: "m (Suc n) = m n" by simp
    have "t (m n) \<le> t j" if "j \<le> Suc n" for j
    proof (cases "j = Suc n")
      case True with False show ?thesis by simp
    next
      case False
      with that have "j \<le> n" by simp
      with Suc show ?thesis by blast
    qed
    with Suc show ?thesis unfolding eq by auto
  qed
qed

lemma leastRecentIndex_props:
  assumes "ps \<noteq> []"
  shows "leastRecentIndex ps < length ps"
    and "\<forall>j < length ps. timestamp (ps ! leastRecentIndex ps) \<le> timestamp (ps ! j)"
    and "\<forall>j < leastRecentIndex ps. timestamp (ps ! leastRecentIndex ps) < timestamp (ps ! j)"
proof -
  from assms obtain n where n: "length ps = Suc n"
    by (cases ps) auto
  have eq: "leastRecentIndex ps
      = foldl (\<lambda>min i. if timestamp (ps ! i) < timestamp (ps ! min) then i else min) 0 [0..<Suc n]"
    by (simp only: leastRecentIndex_def n)
  note s = scan_min_index [of "\<lambda>i. timestamp (ps ! i)" n, folded eq]
  from s show "leastRecentIndex ps < length ps" by (simp add: n)
  from s show "\<forall>j < length ps. timestamp (ps ! leastRecentIndex ps) \<le> timestamp (ps ! j)"
    by (simp add: n less_Suc_eq_le)
  from s show "\<forall>j < leastRecentIndex ps. timestamp (ps ! leastRecentIndex ps) < timestamp (ps ! j)"
    by simp
qed

lemma step_done:
  "\<not> currentStep s < length (sequence s) \<Longrightarrow>
     step now later s = s\<lparr>narration := NarrationDone, isNarrating := True\<rparr>"
  by (simp add: step_def handleNext_def)

lemma step_hit_fifo:
  assumes "currentStep s < length (sequence s)"
    and "resident (sequence s ! currentStep s) s" and "algorithmP s = FIFO"
  shows "step now later s =
     s\<lparr>narration := getNarration FIFO (currentStep s) (sequence s ! currentStep s) False,
       isNarrating := True, currentStep := currentStep s + 1\<rparr>"
  using assms by (simp add: step_def handleNext_def resident_def Let_def)

lemma step_hit_lru:
  assumes "currentStep s < length (sequence s)"
    and "resident (sequence s ! currentStep s) s" and "algorithmP s = LRU"
  shows "step now later s =
     s\<lparr>narration := getNarration LRU (currentStep s) (sequence s ! currentStep s) False,
       isNarrating := True,
       pages := map (\<lambda>p. if page_id p = sequence s ! currentStep s
                          then p\<lparr>timestamp := now\<rparr> else p) (pages s),
       currentStep := currentStep s + 1\<rparr>"
  using assms by (simp add: step_def handleNext_def resident_def Let_def)

lemma step_fault_room:
  assumes "currentStep s < length (sequence s)"
    and "\<not> resident (sequence s ! currentStep s) s" and "length (pages s) < frameSize"
  shows "step now later s =
     s\<lparr>narration := getNarration (algorithmP s) (currentStep s) (sequence s ! currentStep s) True,
       isNarrating := True,
       pageFaults := pageFaults s + 1,
       pages := pages s @ [entering_page (sequence s ! currentStep s) now None],
       currentStep := currentStep s + 1\<rparr>"
  using assms by (simp add: step_def handleNext_def resident_def Let_def)

lemma step_evict_fifo:
  assumes "evicting s" and "algorithmP s = FIFO"
  shows "step now later s =
     s\<lparr>narration := getNarration FIFO (currentStep s) (sequence s ! currentStep s) True,
       isNarrating := True,
       pageFaults := pageFaults s + 1,
       pages := map (\<lambda>p. p\<lparr>isLeaving := Some False\<rparr>) (drop 1 (pages s))
                  @ [entering_page (sequence s ! currentStep s) later
                       (Some (page_id (pages s ! 0)))],
       currentStep := currentStep s + 1\<rparr>"
  using assms
  by (simp add: evicting_def step_def handleNext_def resident_def Let_def runReplacement_def
      drop_mark_leaving)

lemma step_evict_lru:
  assumes "evicting s" and "algorithmP s = LRU"
  shows "step now later s =
     s\<lparr>narration := getNarration LRU (currentStep s) (sequence s ! currentStep s) True,
       isNarrating := True,
       pageFaults := pageFaults s + 1,
       pages := (pages s)[leastRecentIndex (pages s) :=
                  entering_page (sequence s ! currentStep s) later
                    (Some (page_id (pages s ! leastRecentIndex (pages s))))],
       currentStep := currentStep s + 1\<rparr>"
  using assms
  by (simp add: evicting_def step_def handleNext_def resident_def Let_def runReplacement_def
      mark_leaving_update)

lemma ids_touch:
  "map page_id (map (\<lambda>p. if page_id p = x then p\<lparr>timestamp := now\<rparr> else p) ps)
     = map page_id ps"
  by (induction ps) simp_all

lemma ids_step:
  "map page_id (pages (step now later s)) =
     (if \<not> currentStep s < length (sequence s) then map page_id (pages s)
      else if resident (sequence s ! currentStep s) s then map page_id (pages s)
      else if length (pages s) < frameSize
        then map page_id (pages s) @ [sequence s ! currentStep s]
      else if algorithmP s = FIFO
        then drop (Suc 0) (map page_id (pages s)) @ [sequence s ! currentStep s]
      else (map page_id (pages s))[leastRecentIndex (pages s) := sequence s ! currentStep s])"
proof -
  consider (finished) "\<not> currentStep s < length (sequence s)"
    | (hit) "currentStep s < length (sequence s)" "resident (sequence s ! currentStep s) s"
    | (room) "currentStep s < length (sequence s)" "\<not> resident (sequence s ! currentStep s) s"
        "length (pages s) < frameSize"
    | (evict) "evicting s"
    unfolding evicting_def by blast
  then show ?thesis
  proof cases
    case finished
    then show ?thesis by (simp add: step_done)
  next
    case hit
    then show ?thesis
      by (cases "algorithmP s") (simp_all add: step_hit_fifo step_hit_lru ids_touch)
  next
    case room
    then show ?thesis by (simp add: step_fault_room entering_page_def)
  next
    case evict
    then have c: "currentStep s < length (sequence s)"
        "\<not> resident (sequence s ! currentStep s) s" "\<not> length (pages s) < frameSize"
      by (simp_all add: evicting_def)
    show ?thesis
    proof (cases "algorithmP s")
      case FIFO
      with c show ?thesis
        by (simp add: step_evict_fifo [OF evict FIFO] entering_page_def drop_map comp_def)
    next
      case LRU
      with c show ?thesis
        by (simp add: step_evict_lru [OF evict LRU] entering_page_def map_update)
    qed
  qed
qed

lemma ts_touch:
  "map timestamp (map (\<lambda>p. if page_id p = x then p\<lparr>timestamp := now\<rparr> else p) ps)
     = map (\<lambda>p. if page_id p = x then now else timestamp p) ps"
  by (induction ps) simp_all

lemma ts_step:
  "map timestamp (pages (step now later s)) =
     (if \<not> currentStep s < length (sequence s) then map timestamp (pages s)
      else if resident (sequence s ! currentStep s) s then
        (if algorithmP s = LRU
         then map (\<lambda>p. if page_id p = sequence s ! currentStep s then now else timestamp p)
                (pages s)
         else map timestamp (pages s))
      else if length (pages s) < frameSize then map timestamp (pages s) @ [now]
      else if algorithmP s = FIFO then drop (Suc 0) (map timestamp (pages s)) @ [later]
      else (map timestamp (pages s))[leastRecentIndex (pages s) := later])"
proof -
  consider (finished) "\<not> currentStep s < length (sequence s)"
    | (hit) "currentStep s < length (sequence s)" "resident (sequence s ! currentStep s) s"
    | (room) "currentStep s < length (sequence s)" "\<not> resident (sequence s ! currentStep s) s"
        "length (pages s) < frameSize"
    | (evict) "evicting s"
    unfolding evicting_def by blast
  then show ?thesis
  proof cases
    case finished
    then show ?thesis by (simp add: step_done)
  next
    case hit
    then show ?thesis
      by (cases "algorithmP s") (simp_all add: step_hit_fifo step_hit_lru ts_touch)
  next
    case room
    then show ?thesis by (simp add: step_fault_room entering_page_def)
  next
    case evict
    then have c: "currentStep s < length (sequence s)"
        "\<not> resident (sequence s ! currentStep s) s" "\<not> length (pages s) < frameSize"
      by (simp_all add: evicting_def)
    show ?thesis
    proof (cases "algorithmP s")
      case FIFO
      with c show ?thesis
        by (simp add: step_evict_fifo [OF evict FIFO] entering_page_def drop_map comp_def)
    next
      case LRU
      with c show ?thesis
        by (simp add: step_evict_lru [OF evict LRU] entering_page_def map_update)
    qed
  qed
qed

lemma resident_iff: "resident x s \<longleftrightarrow> x \<in> set (map page_id (pages s))"
  by (auto simp: resident_def list_ex_iff)

lemma distinct_update_fresh:
  "distinct xs \<Longrightarrow> a \<notin> set xs \<Longrightarrow> distinct (xs[i := a])"
  by (rule distinct_list_update) auto

lemma step_length:
  assumes "length (pages s) \<le> frameSize"
  shows "length (pages (step now later s)) \<le> frameSize"
proof -
  have "length (map page_id (pages (step now later s))) \<le> frameSize"
    unfolding ids_step using assms by (auto simp: frameSize_def)
  then show ?thesis by simp
qed

lemma step_distinct_ids:
  assumes "distinct (map page_id (pages s))"
  shows "distinct (map page_id (pages (step now later s)))"
proof -
  let ?ids = "map page_id (pages s)"
  have fresh: "distinct (drop (Suc 0) ?ids @ [x])" if "x \<notin> set ?ids" for x
  proof -
    have "set (drop (Suc 0) ?ids) \<subseteq> set ?ids" by (rule set_drop_subset)
    with that have "x \<notin> set (drop (Suc 0) ?ids)" by blast
    with assms show ?thesis by simp
  qed
  show ?thesis
    unfolding ids_step using assms fresh
    by (auto simp: resident_iff distinct_update_fresh simp del: set_map)
qed

lemma touch_distinct:
  assumes "distinct (map page_id ps)" and "distinct (map timestamp ps)"
    and "\<forall>p \<in> set ps. timestamp p < now"
  shows "distinct (map (\<lambda>p. if page_id p = x then now else timestamp p) ps)"
  using assms
proof (induction ps)
  case Nil
  then show ?case by simp
next
  case (Cons p ps)
  let ?f = "\<lambda>p. if page_id p = x then now else timestamp p"
  from Cons have IH: "distinct (map ?f ps)" by simp
  show ?case
  proof (cases "page_id p = x")
    case True
    with Cons.prems(1) have "x \<notin> page_id ` set ps" by simp
    then have "\<forall>q \<in> set ps. page_id q \<noteq> x" by blast
    then have eq: "map ?f ps = map timestamp ps" by (intro map_cong) simp_all
    from Cons.prems(3) have n: "now \<notin> set (map timestamp ps)" by auto
    have "now \<notin> set (map ?f ps)" by (subst eq) (rule n)
    with True IH show ?thesis by simp
  next
    case False
    have "set (map ?f ps) \<subseteq> insert now (set (map timestamp ps))" by auto
    moreover from Cons.prems(2) have "timestamp p \<notin> set (map timestamp ps)" by simp
    moreover from Cons.prems(3) have "timestamp p \<noteq> now" by simp
    ultimately have "timestamp p \<notin> set (map ?f ps)" by blast
    with False IH show ?thesis by simp
  qed
qed

lemma step_distinct_ts:
  assumes ids: "distinct (map page_id (pages s))"
    and ts: "distinct (map timestamp (pages s))"
    and bound: "\<forall>t \<in> set (map timestamp (pages s)). t \<le> b"
    and clock: "case reading_taken now later s of None \<Rightarrow> True | Some t \<Rightarrow> b < t"
  shows "distinct (map timestamp (pages (step now later s)))"
    and "\<forall>t \<in> set (map timestamp (pages (step now later s))).
           t \<le> (case reading_taken now later s of None \<Rightarrow> b | Some t \<Rightarrow> t)"
proof -
  let ?ts = "map timestamp (pages s)"
  let ?x = "sequence s ! currentStep s"
  let ?touch = "map (\<lambda>p. if page_id p = ?x then now else timestamp p) (pages s)"
  let ?goal = "distinct (map timestamp (pages (step now later s)))
    \<and> (\<forall>t \<in> set (map timestamp (pages (step now later s))).
           t \<le> (case reading_taken now later s of None \<Rightarrow> b | Some t \<Rightarrow> t))"
  have sub_drop: "set (drop (Suc 0) ?ts) \<subseteq> set ?ts" by (rule set_drop_subset)
  have sub_upd: "set (?ts[leastRecentIndex (pages s) := later]) \<subseteq> insert later (set ?ts)"
    by (rule set_update_subset_insert)
  consider (finished) "\<not> currentStep s < length (sequence s)"
    | (hit_fifo) "currentStep s < length (sequence s)" "resident ?x s" "algorithmP s = FIFO"
    | (hit_lru) "currentStep s < length (sequence s)" "resident ?x s" "algorithmP s = LRU"
    | (room) "currentStep s < length (sequence s)" "\<not> resident ?x s"
        "length (pages s) < frameSize"
    | (evict) "currentStep s < length (sequence s)" "\<not> resident ?x s"
        "\<not> length (pages s) < frameSize"
    by (cases "algorithmP s") blast+
  then have ?goal
  proof cases
    case finished
    then show ?thesis using ts bound by (simp add: ts_step reading_taken_def)
  next
    case hit_fifo
    then show ?thesis using ts bound by (simp add: ts_step reading_taken_def)
  next
    case hit_lru
    with clock have b: "b < now" by (simp add: reading_taken_def)
    with bound have lt: "\<forall>p \<in> set (pages s). timestamp p < now" by auto
    have d: "distinct ?touch" by (rule touch_distinct [OF ids ts lt])
    have le: "\<forall>t \<in> set ?touch. t \<le> now" using lt by auto
    from hit_lru d le show ?thesis by (simp add: ts_step reading_taken_def)
  next
    case room
    with clock have b: "b < now" by (simp add: reading_taken_def)
    with bound have "now \<notin> set ?ts" and "\<forall>t \<in> set ?ts. t \<le> now" by auto
    with room ts show ?thesis by (simp add: ts_step reading_taken_def)
  next
    case evict
    with clock have b: "b < later" by (simp add: reading_taken_def)
    with bound have fresh: "later \<notin> set ?ts" and le: "\<forall>t \<in> set ?ts. t \<le> later" by auto
    have d_fifo: "distinct (drop (Suc 0) ?ts @ [later])"
      using ts fresh sub_drop by (simp add: subset_iff) blast
    have le_fifo: "\<forall>t \<in> set (drop (Suc 0) ?ts @ [later]). t \<le> later"
      using le sub_drop by auto
    have d_lru: "distinct (?ts[leastRecentIndex (pages s) := later])"
      using ts fresh by (rule distinct_update_fresh)
    have le_lru: "\<forall>t \<in> set (?ts[leastRecentIndex (pages s) := later]). t \<le> later"
      using le sub_upd by auto
    from evict d_fifo le_fifo d_lru le_lru show ?thesis
      by (simp add: ts_step reading_taken_def)
  qed
  then show "distinct (map timestamp (pages (step now later s)))"
    and "\<forall>t \<in> set (map timestamp (pages (step now later s))).
           t \<le> (case reading_taken now later s of None \<Rightarrow> b | Some t \<Rightarrow> t)"
    by blast+
qed

lemma run_events_size_ids:
  assumes "length (pages s) \<le> frameSize" and "distinct (map page_id (pages s))"
  shows "length (pages (run_events s es)) \<le> frameSize
     \<and> distinct (map page_id (pages (run_events s es)))"
  using assms
proof (induction es arbitrary: s)
  case Nil
  then show ?case by simp
next
  case (Cons e es)
  show ?case
  proof (cases e)
    case (Step now later)
    with Cons.prems show ?thesis
      by (simp add: Cons.IH step_length step_distinct_ids)
  next
    case Reset
    then show ?thesis by (simp add: Cons.IH resetP_def)
  qed
qed

lemma run_events_timestamps:
  assumes "distinct (map page_id (pages s))" and "distinct (map timestamp (pages s))"
    and "\<forall>t \<in> set (map timestamp (pages s)). t \<le> b"
    and "clock_increasing b s es"
  shows "distinct (map timestamp (pages (run_events s es)))"
  using assms
proof (induction es arbitrary: s b)
  case Nil
  then show ?case by simp
next
  case (Cons e es)
  show ?case
  proof (cases e)
    case (Step now later)
    let ?s' = "step now later s"
    let ?b' = "case reading_taken now later s of None \<Rightarrow> b | Some t \<Rightarrow> t"
    from Cons.prems(4) Step
    have taken: "case reading_taken now later s of None \<Rightarrow> True | Some t \<Rightarrow> b < t"
      and rest: "clock_increasing ?b' ?s' es"
      by (auto split: option.splits)
    note st = step_distinct_ts [OF Cons.prems(1,2,3) taken]
    have "distinct (map timestamp (pages (run_events ?s' es)))"
      using step_distinct_ids [OF Cons.prems(1)] st rest by (rule Cons.IH)
    with Step show ?thesis by simp
  next
    case Reset
    with Cons.prems have c: "clock_increasing b (resetP s) es" by simp
    have "distinct (map timestamp (pages (run_events (resetP s) es)))"
      by (rule Cons.IH [OF _ _ _ c]) (simp_all add: resetP_def)
    with Reset show ?thesis by simp
  qed
qed

lemma step_done_again:
  "\<not> currentStep s < length (sequence s) \<Longrightarrow>
     step now later (s\<lparr>narration := NarrationDone, isNarrating := True\<rparr>)
       = s\<lparr>narration := NarrationDone, isNarrating := True\<rparr>"
  by (simp add: step_done)

lemma states_fixed:
  assumes "\<And>now later. step now later t = t"
  shows "set (states t cs) = {t}"
proof (induction cs)
  case Nil
  show ?case by simp
next
  case (Cons c cs)
  obtain now later where c: "c = (now, later)" by (cases c)
  show ?case using Cons assms by (simp add: c)
qed

lemma states_done:
  assumes "\<not> currentStep s < length (sequence s)"
  shows "set (states s cs) \<subseteq> {s, s\<lparr>narration := NarrationDone, isNarrating := True\<rparr>}"
    and "set (tl (states s cs)) \<subseteq> {s\<lparr>narration := NarrationDone, isNarrating := True\<rparr>}"
proof -
  let ?t = "s\<lparr>narration := NarrationDone, isNarrating := True\<rparr>"
  have fixed: "set (states ?t cs') = {?t}" for cs'
    by (rule states_fixed) (rule step_done_again [OF assms])
  show "set (states s cs) \<subseteq> {s, ?t}"
  proof (cases cs)
    case Nil
    then show ?thesis by simp
  next
    case (Cons c cs')
    obtain now later where c: "c = (now, later)" by (cases c)
    show ?thesis using fixed [of cs'] by (simp add: Cons c step_done [OF assms])
  qed
  show "set (tl (states s cs)) \<subseteq> {?t}"
  proof (cases cs)
    case Nil
    then show ?thesis by simp
  next
    case (Cons c cs')
    obtain now later where c: "c = (now, later)" by (cases c)
    show ?thesis using fixed [of cs'] by (simp add: Cons c step_done [OF assms])
  qed
qed

subsection \<open>Calls outside the settled schedule\<close>

text \<open>
  A tick whose handler belongs to the current render is a step of the settled schedule.
\<close>

lemma handleNext_captured_same: "handleNext_captured now s s = handleNext now s"
  by (simp add: handleNext_captured_def handleNext_def)

lemma play_step_same: "snd (play_step now later (s, s)) = step now later s"
  by (simp add: play_step_def step_def handleNext_captured_same split: prod.splits option.splits)

lemmas play_eval = play_step_def handleNext_captured_def play_clock_def two_calls_def
  call_then_reset_def run_pending_def repeat_state_def resetP_def

text \<open>
  Under autoplay the handler of a tick that follows a replacement still holds the pages
  from before that replacement. On the default sequence under FIFO the seventh tick finds
  page 3, evicted at the sixth, in its pages and counts no fault; the page loaded at the
  sixth tick records page 1 as its predecessor, while page 3 was the one removed.
\<close>

lemma play_fifo_default:
  "pageFaults (snd (play (page_init default_sequence FIFO, page_init default_sequence FIFO)
       play_clock)) = 5
   \<and> map page_id (pages (snd (play
       (page_init default_sequence FIFO, page_init default_sequence FIFO) play_clock)))
     = [0, 5, 6]
   \<and> map prevValue (pages (snd (play
       (page_init default_sequence FIFO, page_init default_sequence FIFO) play_clock)))
     = [None, Some 1, Some 1]"
  by (simp add: default_sequence_def page_eval play_eval)

text \<open>
  On the default sequence under LRU the sixth tick takes the victim's slot from the pages
  of the older render and so removes page 5, loaded just before, while page 0 with the
  smallest timestamp stays.
\<close>

lemma play_lru_default:
  "map (\<lambda>p. (page_id p, timestamp p)) (pages (snd (play
       (page_init default_sequence LRU, page_init default_sequence LRU) (take 5 play_clock))))
     = [(5, 18000), (3, 14000), (0, 10500)]
   \<and> map (\<lambda>p. (page_id p, timestamp p)) (pages (snd (play
       (page_init default_sequence LRU, page_init default_sequence LRU) (take 6 play_clock))))
     = [(6, 21500), (3, 14000), (0, 10500)]"
  by (simp add: default_sequence_def page_eval play_eval)

text \<open>
  A page referenced twice in a row, the first time with an eviction, is loaded twice:
  under autoplay, and by two presses of the step button within 500 ms.
\<close>

lemma play_duplicate_ids:
  "map page_id (pages (snd (play
       (page_init [1, 2, 3, 4, 4] FIFO, page_init [1, 2, 3, 4, 4] FIFO) (take 5 play_clock))))
     = [3, 4, 4]"
  by (simp add: page_eval play_eval)

lemma two_calls_duplicate_ids:
  "map page_id (pages repeat_state) = [1, 2, 3]
   \<and> map page_id (pages (two_calls 4000 4100 4500 4600 repeat_state)) = [3, 4, 4]"
  by (simp add: page_eval play_eval)

text \<open>A replacement that is pending at a reset still runs and puts its page into the memory.\<close>

lemma reset_keeps_pending:
  "map page_id (pages (call_then_reset 4000 4500 repeat_state)) = [4]"
  by (simp add: page_eval play_eval)

subsection \<open>The claims about page replacement\<close>

text \<open>
  C3, the tie-break by load order fails. At the end of \<open>tie_run\<close> pages 4 and 2 share the
  smallest timestamp; page 2 entered memory at step 2 and page 4 at step 4, so the spec's
  rule names slot 1 (page 2), while the scan names slot 0 and the step evicts page 4.
\<close>

theorem lru_tie_counterexample:
  "evicting (last tie_run) \<and> algorithmP (last tie_run) = LRU
   \<and> map page_id (pages (last tie_run)) = [4, 2, 3]
   \<and> map timestamp (pages (last tie_run)) = [4500, 4500, 5000]
   \<and> spec_loadOrder tie_run 4 = 4 \<and> spec_loadOrder tie_run 2 = 2
   \<and> spec_lru_victim tie_run = 1
   \<and> leastRecentIndex (pages (last tie_run)) = 0
   \<and> map page_id (pages (step 6000 6500 (last tie_run))) = [5, 2, 3]"
  by (simp add: tie_run_def page_eval spec_loadOrder_def spec_lru_victim_def)

text \<open>
  C3, as the code has it, in the settled schedule: the handler call of the fault sees
  the pages left by the step before it, and its replacement runs before any further call
  or reset. Under LRU, at such a fault that has to evict, the victim is a resident page
  with the smallest timestamp, and among the pages with that timestamp it is the one in
  the lowest slot of the array; the new page takes the victim's slot.
\<close>

theorem lru_evicts_lowest_slot_of_least_recent:
  assumes "evicting s" and "algorithmP s = LRU"
  shows "leastRecentIndex (pages s) < length (pages s)
    \<and> (\<forall>j < length (pages s).
          timestamp (pages s ! leastRecentIndex (pages s)) \<le> timestamp (pages s ! j))
    \<and> (\<forall>j < leastRecentIndex (pages s).
          timestamp (pages s ! leastRecentIndex (pages s)) < timestamp (pages s ! j))
    \<and> pages (step now later s) =
        (pages s)[leastRecentIndex (pages s) :=
           entering_page (sequence s ! currentStep s) later
             (Some (page_id (pages s ! leastRecentIndex (pages s))))]"
proof -
  from assms(1) have "pages s \<noteq> []"
    by (auto simp: evicting_def frameSize_def)
  from leastRecentIndex_props [OF this] step_evict_lru [OF assms, of now later]
  show ?thesis by simp
qed

theorem lru_evicts_lowest_slot_of_least_recent_witness:
  "evicting (last tie_run) \<and> algorithmP (last tie_run) = LRU
   \<and> leastRecentIndex (pages (last tie_run)) = 0
   \<and> map page_id (pages (step 6000 6500 (last tie_run))) = [5, 2, 3]
   \<and> map prevValue (pages (step 6000 6500 (last tie_run))) = [Some 4, None, None]"
  using lru_evicts_lowest_slot_of_least_recent [of "last tie_run" 6000 6500]
  by (simp add: tie_run_def page_eval)

text \<open>
  C4, the count of 5 fails. Under FIFO the default sequence 1, 3, 0, 3, 5, 6, 3 ends with
  6 faults: the sixth step evicts page 3, which is then absent at the seventh step.
\<close>

theorem fifo_default_run_counterexample:
  "pageFaults (run_events (page_init default_sequence FIFO)
      [Step 0 500, Step 1000 1500, Step 2000 2500, Step 3000 3500, Step 4000 4500,
       Step 5000 5500, Step 6000 6500]) = 6
   \<and> pageFaults (run_events (page_init default_sequence FIFO)
      [Step 0 500, Step 1000 1500, Step 2000 2500, Step 3000 3500, Step 4000 4500,
       Step 5000 5500, Step 6000 6500]) \<noteq> 5
   \<and> \<not> resident 3 (run_events (page_init default_sequence FIFO)
      [Step 0 500, Step 1000 1500, Step 2000 2500, Step 3000 3500, Step 4000 4500,
       Step 5000 5500])"
  by (simp add: default_sequence_def page_eval)

text \<open>
  C4, as the code has it. Under FIFO with three frames, every step seeing the pages left
  by the step before it, the sequence 1, 3, 0, 3, 5, 6, 3 faults at steps 1, 2, 3, 5, 6
  and 7 (the references to 1, 3, 0, 5, 6 and the last one to 3) and hits at step 4; the
  final fault count is 6, whatever the clock readings.
\<close>

theorem fifo_default_run_six_faults:
  "map pageFaults (states (page_init default_sequence FIFO)
       [(n1, l1), (n2, l2), (n3, l3), (n4, l4), (n5, l5), (n6, l6), (n7, l7)])
     = [0, 1, 2, 3, 3, 4, 5, 6]
   \<and> map (map page_id \<circ> pages) (states (page_init default_sequence FIFO)
       [(n1, l1), (n2, l2), (n3, l3), (n4, l4), (n5, l5), (n6, l6), (n7, l7)])
     = [[], [1], [1, 3], [1, 3, 0], [1, 3, 0], [3, 0, 5], [0, 5, 6], [5, 6, 3]]"
  by (simp add: default_sequence_def page_eval)

text \<open>
  C8, distinct timestamps fail. Two calls of the handler within the same millisecond load
  two pages with the same timestamp.
\<close>

theorem equal_clock_readings_counterexample:
  "map timestamp (pages (run_events (page_init default_sequence LRU)
       [Step 1000 1500, Step 1000 1500])) = [1000, 1000]
   \<and> \<not> distinct (map timestamp (pages (run_events (page_init default_sequence LRU)
       [Step 1000 1500, Step 1000 1500])))"
  by (simp add: page_init_def default_sequence_def step_def handleNext_def Let_def
      frameSize_def entering_page_def getNarration_def)

text \<open>
  C8, as the code has it, in the settled schedule. In every state reached from the
  initial state by steps and resets, each made after the replacement of the step before
  it has run and each step by the handler of the render then current, under both
  algorithms, the memory holds at most 3 pages and no two of them have the same id; their
  timestamps are pairwise distinct when the clock readings taken along the run increase
  strictly.
\<close>

theorem resident_set_invariant:
  "length (pages (run_events (page_init refs alg) es)) \<le> 3
   \<and> distinct (map page_id (pages (run_events (page_init refs alg) es)))
   \<and> (clock_increasing b (page_init refs alg) es \<longrightarrow>
        distinct (map timestamp (pages (run_events (page_init refs alg) es))))"
proof -
  have init: "length (pages (page_init refs alg)) \<le> frameSize"
      "distinct (map page_id (pages (page_init refs alg)))"
      "distinct (map timestamp (pages (page_init refs alg)))"
      "\<forall>t \<in> set (map timestamp (pages (page_init refs alg))). t \<le> b"
    by (simp_all add: page_init_def)
  from run_events_size_ids [OF init(1,2), of es]
    run_events_timestamps [OF init(2,3,4), of es]
  show ?thesis by (simp add: frameSize_def)
qed

theorem resident_set_invariant_witness:
  "clock_increasing 0 (page_init default_sequence LRU) lru_events
   \<and> map page_id (pages (run_events (page_init default_sequence LRU) lru_events)) = [5, 3, 0]
   \<and> map timestamp (pages (run_events (page_init default_sequence LRU) lru_events))
       = [1506, 1005, 1004]
   \<and> distinct (map timestamp (pages (run_events (page_init default_sequence LRU) lru_events)))"
  using resident_set_invariant [of default_sequence LRU lru_events 0]
  by (simp add: lru_events_def default_sequence_def page_eval reading_taken_def resetP_def)

text \<open>
  C9, replacement in place fails under FIFO. With pages 1, 3, 0 in memory a reference to 5
  evicts page 1 from slot 0, moves pages 3 and 0 to slots 0 and 1, and puts page 5 into
  slot 2.
\<close>

theorem fifo_eviction_counterexample:
  "evicting fifo_full_state \<and> algorithmP fifo_full_state = FIFO
   \<and> map page_id (pages fifo_full_state) = [1, 3, 0]
   \<and> map page_id (pages (step 4000 4500 fifo_full_state)) = [3, 0, 5]
   \<and> map prevValue (pages (step 4000 4500 fifo_full_state)) = [None, None, Some 1]
   \<and> page_id (pages (step 4000 4500 fifo_full_state) ! 0) \<noteq> 5
   \<and> page_id (pages (step 4000 4500 fifo_full_state) ! 1)
       \<noteq> page_id (pages fifo_full_state ! 1)"
  by (simp add: fifo_full_state_def default_sequence_def page_eval)

text \<open>
  C9, as the code has it, in the settled schedule: the handler call of the fault sees
  the pages left by the step before it, and its replacement runs before any further call
  or reset. Such a fault with the memory full counts one fault and records the victim's
  id in the new page. Under LRU the new page takes the victim's slot and every other page
  keeps its slot. Under FIFO the victim leaves slot 0, the other pages move one slot
  towards the front and the new page takes the last slot.
\<close>

theorem eviction_slots:
  assumes "evicting s"
  shows "pageFaults (step now later s) = pageFaults s + 1
    \<and> (algorithmP s = LRU \<longrightarrow>
          leastRecentIndex (pages s) < length (pages s)
        \<and> pages (step now later s) =
            (pages s)[leastRecentIndex (pages s) :=
               entering_page (sequence s ! currentStep s) later
                 (Some (page_id (pages s ! leastRecentIndex (pages s))))])
    \<and> (algorithmP s = FIFO \<longrightarrow>
          pages (step now later s) =
            map (\<lambda>p. p\<lparr>isLeaving := Some False\<rparr>) (tl (pages s))
              @ [entering_page (sequence s ! currentStep s) later
                   (Some (page_id (hd (pages s))))]
        \<and> map page_id (pages (step now later s))
            = tl (map page_id (pages s)) @ [sequence s ! currentStep s])"
proof -
  from assms have ne: "pages s \<noteq> []"
    by (auto simp: evicting_def frameSize_def)
  then have hd0: "pages s ! 0 = hd (pages s)" by (simp add: hd_conv_nth)
  have faults: "pageFaults (step now later s) = pageFaults s + 1"
    using assms by (cases "algorithmP s") (simp_all add: step_evict_fifo step_evict_lru)
  have lru: "leastRecentIndex (pages s) < length (pages s)
        \<and> pages (step now later s) =
            (pages s)[leastRecentIndex (pages s) :=
               entering_page (sequence s ! currentStep s) later
                 (Some (page_id (pages s ! leastRecentIndex (pages s))))]"
    if "algorithmP s = LRU"
    using leastRecentIndex_props(1) [OF ne] step_evict_lru [OF assms that, of now later]
    by simp
  have fifo: "pages (step now later s) =
            map (\<lambda>p. p\<lparr>isLeaving := Some False\<rparr>) (tl (pages s))
              @ [entering_page (sequence s ! currentStep s) later
                   (Some (page_id (hd (pages s))))]
        \<and> map page_id (pages (step now later s))
            = tl (map page_id (pages s)) @ [sequence s ! currentStep s]"
    if "algorithmP s = FIFO"
    using step_evict_fifo [OF assms that, of now later] hd0
    by (simp add: drop_Suc entering_page_def map_tl comp_def)
  from faults lru fifo show ?thesis by blast
qed

theorem eviction_slots_witness:
  "evicting fifo_full_state \<and> algorithmP fifo_full_state = FIFO
   \<and> evicting (last tie_run) \<and> algorithmP (last tie_run) = LRU
   \<and> map page_id (pages (step 4000 4500 fifo_full_state)) = [3, 0, 5]
   \<and> map page_id (pages (step 6000 6500 (last tie_run))) = [5, 2, 3]
   \<and> pageFaults (step 4000 4500 fifo_full_state) = 4"
  using eviction_slots [of fifo_full_state 4000 4500] eviction_slots [of "last tie_run" 6000 6500]
  by (simp add: fifo_full_state_def tie_run_def default_sequence_def page_eval)

section \<open>Steps after the input is consumed\<close>

text \<open>
  C6. Once the reference sequence is consumed, every further step leaves the fault count,
  the step index and the pages as they are, and every such call yields the same state,
  the one with the closing narration. Once every request is served, every further call of
  \<open>moveHead\<close> leaves the requests, the head position and the total seek time as they are
  and selects nothing.
\<close>

theorem terminal_calls_change_nothing:
  "(\<not> currentStep s < length (sequence s) \<longrightarrow>
      (\<forall>t \<in> set (states s cs).
          pageFaults t = pageFaults s \<and> currentStep t = currentStep s \<and> pages t = pages s)
    \<and> (\<forall>t \<in> set (tl (states s cs)).
          t = s\<lparr>narration := NarrationDone, isNarrating := True\<rparr>)
    \<and> handleNext now s = (s\<lparr>narration := NarrationDone, isNarrating := True\<rparr>, None))
   \<and> (all_served d \<longrightarrow>
      requests ((moveHead ^^ n) d) = requests d
    \<and> headPosition ((moveHead ^^ n) d) = headPosition d
    \<and> totalSeekTime ((moveHead ^^ n) d) = totalSeekTime d
    \<and> fst (getNextRequest ((moveHead ^^ n) d)) = None)"
proof (intro conjI impI)
  assume fin: "\<not> currentStep s < length (sequence s)"
  note sub = states_done [OF fin, of cs]
  show "\<forall>t \<in> set (states s cs).
      pageFaults t = pageFaults s \<and> currentStep t = currentStep s \<and> pages t = pages s"
    using sub(1) by auto
  show "\<forall>t \<in> set (tl (states s cs)). t = s\<lparr>narration := NarrationDone, isNarrating := True\<rparr>"
    using sub(2) by auto
  show "handleNext now s = (s\<lparr>narration := NarrationDone, isNarrating := True\<rparr>, None)"
    using fin by (simp add: handleNext_def)
next
  assume idle: "all_served d"
  note calls = idle_calls [OF idle, of n]
  from calls show "requests ((moveHead ^^ n) d) = requests d" by simp
  from calls show "headPosition ((moveHead ^^ n) d) = headPosition d" by simp
  from calls show "totalSeekTime ((moveHead ^^ n) d) = totalSeekTime d" by simp
  from calls have "all_served ((moveHead ^^ n) d)" by simp
  from getNext_all_served [OF this]
  show "fst (getNextRequest ((moveHead ^^ n) d)) = None" by simp
qed

theorem terminal_calls_change_nothing_witness:
  "\<not> currentStep (step 0 500 (page_init [7] FIFO))
        < length (sequence (step 0 500 (page_init [7] FIFO)))
   \<and> all_served (served_state SSTF)
   \<and> map page_id (pages (step 1000 1500 (step 0 500 (page_init [7] FIFO)))) = [7]
   \<and> pageFaults (step 1000 1500 (step 0 500 (page_init [7] FIFO))) = 1
   \<and> headPosition ((moveHead ^^ 2) (served_state SSTF)) = 60
   \<and> totalSeekTime ((moveHead ^^ 2) (served_state SSTF)) = 10"
  using terminal_calls_change_nothing [of "step 0 500 (page_init [7] FIFO)" "[(1000, 1500)]"
      0 "served_state SSTF" 2]
  by (simp add: page_eval served_state_def disk_eval)

end
